theory Spec2Isabelle
  imports Main "HOL-Library.Extended_Nat"
begin

section \<open>Syntax trees and node resolution\<close>

text \<open>
  A syntax node of the analysis engine, reduced to what the two resolvers read:
  \<^verbatim>\<open>node.kind\<close>, \<^verbatim>\<open>node.getStart()\<close>, \<^verbatim>\<open>node.getEnd()\<close> and the children that
  \<^verbatim>\<open>ts.forEachChild\<close> enumerates, in its order. Offsets are non-negative integers.
\<close>

datatype Node = Node (kind: string) (getStart: nat) (getEnd: nat) (children: "Node list")

text \<open>The test \<^verbatim>\<open>position >= start && position < end\<close> shared by both resolvers.\<close>

definition inRange :: "nat \<Rightarrow> Node \<Rightarrow> bool" where
  "inRange position node = (position \<ge> getStart node \<and> position < getEnd node)"

subsection \<open>The rich resolver: \<^verbatim>\<open>findMostSpecificNodeAtPosition\<close>\<close>

text \<open>
  The three closure variables \<^verbatim>\<open>result\<close>, \<^verbatim>\<open>bestStart = -1\<close> and
  \<^verbatim>\<open>bestEnd = Infinity\<close> that \<^verbatim>\<open>visit\<close> mutates.
\<close>

record Best =
  result :: "Node option"
  bestStart :: int
  bestEnd :: enat

definition initialBest :: Best where
  "initialBest = \<lparr>result = None, bestStart = - 1, bestEnd = \<infinity>\<rparr>"

text \<open>
  \<^verbatim>\<open>
  if (start > bestStart || (start === bestStart && end < bestEnd)) {
      result = node; bestStart = start; bestEnd = end;
  }
  \<close>
\<close>

definition considerNode :: "Node \<Rightarrow> Best \<Rightarrow> Best" where
  "considerNode node b =
     (if int (getStart node) > bestStart b
         \<or> (int (getStart node) = bestStart b \<and> enat (getEnd node) < bestEnd b)
      then \<lparr>result = Some node, bestStart = int (getStart node), bestEnd = enat (getEnd node)\<rparr>
      else b)"

text \<open>
  \<^verbatim>\<open>visit\<close> returns nothing, so \<^verbatim>\<open>ts.forEachChild(node, visit)\<close> never stops early:
  every child is visited in order, which is a \<^const>\<open>fold\<close> over the children.
\<close>

fun visit :: "nat \<Rightarrow> Node \<Rightarrow> Best \<Rightarrow> Best" where
  "visit position (Node k s e cs) b =
     (if inRange position (Node k s e cs)
      then fold (visit position) cs (considerNode (Node k s e cs) b)
      else b)"

definition findMostSpecificNodeAtPosition :: "Node \<Rightarrow> nat \<Rightarrow> Node option" where
  "findMostSpecificNodeAtPosition sourceFile position =
     result (visit position sourceFile initialBest)"

subsection \<open>The greedy resolver: \<^verbatim>\<open>findNodeAtPosition\<close>\<close>

text \<open>
  \<^verbatim>\<open>return ts.forEachChild(node, find) || node\<close>: \<^verbatim>\<open>forEachChild\<close> returns the first
  truthy callback result, and every node object is truthy.
\<close>

fun find_node :: "nat \<Rightarrow> Node \<Rightarrow> Node option"
  and forEachChild_find :: "nat \<Rightarrow> Node list \<Rightarrow> Node option" where
  "find_node position (Node k s e cs) =
     (if inRange position (Node k s e cs)
      then (case forEachChild_find position cs of
              Some r \<Rightarrow> Some r
            | None \<Rightarrow> Some (Node k s e cs))
      else None)"
| "forEachChild_find position [] = None"
| "forEachChild_find position (c # cs) =
     (case find_node position c of
        Some r \<Rightarrow> Some r
      | None \<Rightarrow> forEachChild_find position cs)"

definition findNodeAtPosition :: "Node \<Rightarrow> nat \<Rightarrow> Node option" where
  "findNodeAtPosition sourceFile position = find_node position sourceFile"

subsection \<open>Vocabulary for stating what the resolvers return\<close>

text \<open>All nodes of a tree, in depth-first pre-order.\<close>

fun nodes :: "Node \<Rightarrow> Node list" where
  "nodes (Node k s e cs) = Node k s e cs # concat (map nodes cs)"

text \<open>
  The nodes reached by descending from the root only through nodes whose range
  contains the offset, in the order of the descent.
\<close>

fun candidates :: "nat \<Rightarrow> Node \<Rightarrow> Node list" where
  "candidates position (Node k s e cs) =
     (if inRange position (Node k s e cs)
      then Node k s e cs # concat (map (candidates position) cs)
      else [])"

text \<open>\<open>tighter a b\<close>: \<open>a\<close> starts later than \<open>b\<close>, or at the same offset and ends earlier.\<close>

definition tighter :: "Node \<Rightarrow> Node \<Rightarrow> bool" where
  "tighter a b = (getStart a > getStart b \<or> (getStart a = getStart b \<and> getEnd a < getEnd b))"

definition sameRange :: "Node \<Rightarrow> Node \<Rightarrow> bool" where
  "sameRange a b = (getStart a = getStart b \<and> getEnd a = getEnd b)"

text \<open>Every child lies within the range of its parent, all the way down.\<close>

fun wellNested :: "Node \<Rightarrow> bool" where
  "wellNested (Node k s e cs) =
     list_all (\<lambda>c. s \<le> getStart c \<and> getEnd c \<le> e \<and> wellNested c) cs"

text \<open>The state of the rich resolver after visiting the nodes \<open>xs\<close>.\<close>

definition tracks :: "Best \<Rightarrow> Node list \<Rightarrow> bool" where
  "tracks b xs =
     (case result b of
        None \<Rightarrow> xs = [] \<and> bestStart b = - 1 \<and> bestEnd b = \<infinity>
      | Some r \<Rightarrow> r \<in> set xs \<and> bestStart b = int (getStart r) \<and> bestEnd b = enat (getEnd r)
                  \<and> (\<forall>c\<in>set xs. \<not> tighter c r))"

text \<open>The nodes without children.\<close>

definition leaves :: "Node \<Rightarrow> Node list" where
  "leaves t = filter (\<lambda>n. children n = []) (nodes t)"

text \<open>Two ranges overlap when some offset lies in both.\<close>

definition overlaps :: "Node \<Rightarrow> Node \<Rightarrow> bool" where
  "overlaps a b = (max (getStart a) (getStart b) < min (getEnd a) (getEnd b))"

fun disjointSiblings :: "Node list \<Rightarrow> bool" where
  "disjointSiblings [] = True"
| "disjointSiblings (c # cs) = (list_all (\<lambda>d. \<not> overlaps c d) cs \<and> disjointSiblings cs)"

text \<open>
  The shape of a parsed file: every child lies within its parent and no two children of
  one node overlap.
\<close>

fun wellFormed :: "Node \<Rightarrow> bool" where
  "wellFormed (Node k s e cs) =
     (list_all (\<lambda>c. s \<le> getStart c \<and> getEnd c \<le> e \<and> wellFormed c) cs \<and> disjointSiblings cs)"

definition encloses :: "Node \<Rightarrow> Node \<Rightarrow> bool" where
  "encloses a b = (getStart a \<le> getStart b \<and> getEnd b \<le> getEnd a)"

text \<open>Each node of the list is a child of the one before it.\<close>

fun parentChain :: "Node list \<Rightarrow> bool" where
  "parentChain [] = True"
| "parentChain [x] = True"
| "parentChain (x # y # zs) = (y \<in> set (children x) \<and> parentChain (y # zs))"

text \<open>
  The tree the engine builds for the one-line file \<^verbatim>\<open>let a: Foo;\<close> (offsets 0 to 11):
  the type annotation is a \<^verbatim>\<open>TypeReference\<close> node whose only child, the identifier
  \<^verbatim>\<open>Foo\<close>, has the same range.
\<close>

definition letFoo :: Node where
  "letFoo =
     Node ''SourceFile'' 0 11
       [Node ''VariableStatement'' 0 11
          [Node ''VariableDeclarationList'' 0 10
             [Node ''VariableDeclaration'' 4 10
                [Node ''Identifier'' 4 5 [],
                 Node ''TypeReference'' 7 10 [Node ''Identifier'' 7 10 []]]]],
        Node ''EndOfFileToken'' 11 11 []]"

section \<open>Source-file enumeration of the rich variant: \<^verbatim>\<open>getAllTsFiles\<close>\<close>

text \<open>
  A directory entry as \<^verbatim>\<open>fs.readdirSync(dir, { withFileTypes: true })\<close> returns it:
  its name and the answers of \<^verbatim>\<open>isDirectory()\<close> and \<^verbatim>\<open>isFile()\<close> (both are false for
  a symbolic link, a socket and the like). The file system is the function from a path
  to its listing; \<^const>\<open>None\<close> where \<^verbatim>\<open>readdirSync\<close> throws.
\<close>

datatype Dirent = Dirent (name: string) (isDirectory: bool) (isFile: bool)

type_synonym FileSystem = "string \<Rightarrow> Dirent list option"

text \<open>
  The array \<^verbatim>\<open>files\<close> that \<^verbatim>\<open>searchFiles\<close> appends to, and a record of the calls of
  \<^verbatim>\<open>readdirSync\<close>: each directory the walk tries to list, with its depth.
\<close>

record WalkState =
  files :: "string list"
  visited :: "(string \<times> nat) list"

definition maxDepth :: nat where
  "maxDepth = 10"

definition maxFiles :: nat where
  "maxFiles = 1000"

definition skipDirs :: "string list" where
  "skipDirs = [''node_modules'', ''.git'', ''dist'', ''build'', ''.vscode'',
               ''.next'', ''.nuxt'', ''coverage'', ''.nyc_output'',
               ''tmp'', ''temp'', ''.cache'', ''.parcel-cache'']"

definition startsWith :: "string \<Rightarrow> string \<Rightarrow> bool" where
  "startsWith s pre = (take (length pre) s = pre)"

text \<open>
  \<^verbatim>\<open>path.join(dir, entry.name)\<close> for a normalised directory path and the name of one
  of its entries: the two joined by one separator.
\<close>

definition path_join :: "string \<Rightarrow> string \<Rightarrow> string" where
  "path_join dir entryName =
     (if dir \<noteq> [] \<and> last dir = CHR ''/'' then dir @ entryName else dir @ ''/'' @ entryName)"

text \<open>
  \<^verbatim>\<open>path.extname\<close> on a name without separators: the text from the last dot on; empty
  when there is no dot, when the only dot is the first character, and for
  \<^verbatim>\<open>..\<close>.
\<close>

definition extname :: "string \<Rightarrow> string" where
  "extname entryName =
     (let ext = CHR ''.'' # rev (takeWhile (\<lambda>c. c \<noteq> CHR ''.'') (rev entryName))
      in if CHR ''.'' \<notin> set entryName \<or> length ext = length entryName \<or> entryName = ''..''
         then [] else ext)"

text \<open>
  \<^verbatim>\<open>searchFiles(dir, depth)\<close> and its \<^verbatim>\<open>for\<close> loop over the entries. An exception of
  \<^verbatim>\<open>readdirSync\<close> is caught and ignored. The recursion ends because the depth grows
  up to \<^verbatim>\<open>maxDepth\<close>.
\<close>

function searchFiles :: "FileSystem \<Rightarrow> string \<Rightarrow> nat \<Rightarrow> WalkState \<Rightarrow> WalkState"
  and searchEntries :: "FileSystem \<Rightarrow> string \<Rightarrow> nat \<Rightarrow> Dirent list \<Rightarrow> WalkState \<Rightarrow> WalkState"
  where
  "searchFiles fs dir depth st =
     (if depth > maxDepth \<or> length (files st) > maxFiles then st
      else (case fs dir of
              None \<Rightarrow> st\<lparr>visited := visited st @ [(dir, depth)]\<rparr>
            | Some entries \<Rightarrow>
                searchEntries fs dir depth entries (st\<lparr>visited := visited st @ [(dir, depth)]\<rparr>)))"
| "searchEntries fs dir depth [] st = st"
| "searchEntries fs dir depth (entry # entries) st =
     (if length (files st) > maxFiles then st
      else if isDirectory entry then
        (if name entry \<notin> set skipDirs \<and> \<not> startsWith (name entry) ''.''
         then searchEntries fs dir depth entries
                (searchFiles fs (path_join dir (name entry)) (depth + 1) st)
         else searchEntries fs dir depth entries st)
      else if isFile entry then
        (if extname (name entry) \<in> set [''.ts'', ''.tsx'', ''.js'', ''.jsx'']
         then searchEntries fs dir depth entries
                (st\<lparr>files := files st @ [path_join dir (name entry)]\<rparr>)
         else searchEntries fs dir depth entries st)
      else searchEntries fs dir depth entries st)"
  by pat_completeness auto
termination
  by (relation "inv_image (less_than <*lex*> less_than)
        (\<lambda>x. case x of
               Inl (fs, dir, depth, st) \<Rightarrow> (2 * (maxDepth + 2 - depth), 0)
             | Inr (fs, dir, depth, entries, st) \<Rightarrow>
                 (2 * (maxDepth + 1 - depth) + 1, length entries))")
     (auto simp: maxDepth_def)

declare searchFiles.simps [simp del] searchEntries.simps(2) [simp del]

definition initialWalk :: WalkState where
  "initialWalk = \<lparr>files = [], visited = []\<rparr>"

definition getAllTsFiles :: "FileSystem \<Rightarrow> string \<Rightarrow> string list" where
  "getAllTsFiles fs rootPath = files (searchFiles fs rootPath 0 initialWalk)"

subsection \<open>Vocabulary and example projects\<close>

text \<open>The last component of a path.\<close>

definition basename :: "string \<Rightarrow> string" where
  "basename p = rev (takeWhile (\<lambda>c. c \<noteq> CHR ''/'') (rev p))"

text \<open>No entry name contains the path separator, as in every real listing.\<close>

definition slashFree :: "FileSystem \<Rightarrow> bool" where
  "slashFree fs =
     (\<forall>dir entries. fs dir = Some entries \<longrightarrow> (\<forall>e\<in>set entries. CHR ''/'' \<notin> set (name e)))"

text \<open>
  What is allowed of a directory the walk lists: it is the root at depth 0, or it lies
  at a depth from 1 to \<^const>\<open>maxDepth\<close> and its name is neither in the skip-list nor hidden.
\<close>

definition okVisit :: "string \<Rightarrow> string \<times> nat \<Rightarrow> bool" where
  "okVisit rootPath v =
     (snd v \<le> maxDepth
      \<and> (if snd v = 0 then fst v = rootPath
         else basename (fst v) \<notin> set skipDirs \<and> \<not> startsWith (basename (fst v)) ''.''))"

text \<open>Decimal numerals, to name the files of a large directory.\<close>

fun decimal :: "nat \<Rightarrow> string" where
  "decimal n =
     (if n < 10 then [char_of (48 + n)] else decimal (n div 10) @ [char_of (48 + n mod 10)])"

declare decimal.simps [simp del]

text \<open>The files \<^verbatim>\<open>f0.ts\<close>, \<^verbatim>\<open>f1.ts\<close>, ... of a directory.\<close>

definition sourceFiles :: "nat \<Rightarrow> Dirent list" where
  "sourceFiles n = map (\<lambda>i. Dirent (''f'' @ decimal i @ ''.ts'') False True) [0..<n]"

text \<open>A project whose root directory holds 2000 source files and nothing else.\<close>

definition flatProject :: FileSystem where
  "flatProject dir = (if dir = ''/project'' then Some (sourceFiles 2000) else None)"

text \<open>
  A small project: a source directory, a dependency directory, version-control
  metadata, a directory that cannot be read, and one file at the top.
\<close>

definition smallProject :: FileSystem where
  "smallProject dir =
     (if dir = ''/w'' then
        Some [Dirent ''src'' True False, Dirent ''node_modules'' True False,
              Dirent ''.git'' True False, Dirent ''locked'' True False,
              Dirent ''index.ts'' False True]
      else if dir = ''/w/src'' then Some [Dirent ''a.tsx'' False True, Dirent ''notes.md'' False True]
      else if dir = ''/w/node_modules'' then Some [Dirent ''lib.js'' False True]
      else if dir = ''/w/.git'' then Some [Dirent ''hook.js'' False True]
      else None)"

section \<open>The file-text cache and version table of the rich variant\<close>

text \<open>
  The constant answers of the host object built by \<^verbatim>\<open>initializeTypeScriptService\<close>. The
  compiler options are named by where they come from: the path of the
  \<^verbatim>\<open>tsconfig.json\<close> they were parsed from, or \<^const>\<open>None\<close> for the built-in defaults.
\<close>

record ServiceHost =
  getScriptFileNames :: "string list"
  getCurrentDirectory :: string
  getCompilationSettings :: "string option"

text \<open>
  The module-level state of the first module of \<^verbatim>\<open>src/src/extension.ts\<close>. The maps
  \<^verbatim>\<open>fileCache\<close> and \<^verbatim>\<open>fileVersions\<close> are keyed by absolute file name. The handles of
  the analysis engine stay abstract (type parameters). Versions are JavaScript numbers
  holding small non-negative integers, modelled as \<^typ>\<open>nat\<close>.
\<close>

record ('ls, 'prog, 'tc) State =
  languageService :: "'ls option"
  program :: "'prog option"
  typeChecker :: "'tc option"
  fileCache :: "string \<rightharpoonup> string"
  fileVersions :: "string \<rightharpoonup> nat"
  isServiceInitialized :: bool
  currentWorkspaceRoot :: "string option"
  serviceHost :: "ServiceHost option"

text \<open>
  \<^verbatim>\<open>fileVersions.get(fileName) || 1\<close>: a missing entry and the falsy number 0 both
  read as 1. This is the number \<^verbatim>\<open>getScriptVersion\<close> reports to the engine (as its
  decimal string).
\<close>

definition getScriptVersion :: "('ls, 'prog, 'tc) State \<Rightarrow> string \<Rightarrow> nat" where
  "getScriptVersion st fileName =
     (case fileVersions st fileName of None \<Rightarrow> 1 | Some v \<Rightarrow> if v = 0 then 1 else v)"

text \<open>
  Lines 116-124 of \<^verbatim>\<open>getVariableType\<close>:
  \<^verbatim>\<open>
  const cachedContent = fileCache.get(fileName);
  if (cachedContent !== currentContent) {
      fileCache.set(fileName, currentContent);
      const currentVersion = fileVersions.get(fileName) || 1;
      fileVersions.set(fileName, currentVersion + 1);
  }
  \<close>
\<close>

definition updateFileCache ::
  "string \<Rightarrow> string \<Rightarrow> ('ls, 'prog, 'tc) State \<Rightarrow> ('ls, 'prog, 'tc) State" where
  "updateFileCache fileName currentContent st =
     (if fileCache st fileName \<noteq> Some currentContent
      then st\<lparr>fileCache := (fileCache st)(fileName \<mapsto> currentContent),
              fileVersions := (fileVersions st)(fileName \<mapsto> getScriptVersion st fileName + 1)\<rparr>
      else st)"

text \<open>The state at activation, and again after \<^verbatim>\<open>deactivate\<close>.\<close>

definition emptyState :: "('ls, 'prog, 'tc) State" where
  "emptyState =
     \<lparr>languageService = None, program = None, typeChecker = None,
      fileCache = Map.empty, fileVersions = Map.empty,
      isServiceInitialized = False, currentWorkspaceRoot = None, serviceHost = None\<rparr>"

section \<open>Type query and rendering with the fallback to the parent\<close>

text \<open>
  What \<^verbatim>\<open>getVariableType\<close> uses of the type checker: \<^verbatim>\<open>getTypeAtLocation(node)\<close>, which
  may yield nothing, and \<^verbatim>\<open>typeToString(type, enclosingNode, formatFlags)\<close> with the one
  fixed combination of format flags. Nodes and type objects are abstract; equality of
  type objects stands for their identity.
\<close>

record ('node, 'ty) TypeChecker =
  getTypeAtLocation :: "'node \<Rightarrow> 'ty option"
  typeToString :: "'ty \<Rightarrow> 'node \<Rightarrow> string"

text \<open>The lines written by \<^verbatim>\<open>console.log\<close> that report the rendering.\<close>

datatype LogLine =
  NoTypeFound
| GeneratedTypeString string
| GotAnyTryingParent
| ParentTypeString string

definition anyMarker :: string where
  "anyMarker = ''any''"

text \<open>
  Lines 150-198 of \<^verbatim>\<open>getVariableType\<close>, from the type query on the resolved node to the
  returned string; \<open>parent\<close> is the \<^verbatim>\<open>node.parent\<close> link. Both branches of the test on
  \<^verbatim>\<open>ts.TypeFlags.Object\<close> make the same call of \<^verbatim>\<open>typeToString\<close>.
  \<^verbatim>\<open>
  if (typeString === 'any' && node.parent) {
      console.log('Got any, trying parent context...');
      const parentType = typeChecker.getTypeAtLocation(node.parent);
      if (parentType && parentType !== type) {
          let parentTypeString = typeChecker.typeToString(parentType, node.parent, formatFlags);
          console.log('Parent type string:', parentTypeString);
          if (parentTypeString !== 'any') { typeString = parentTypeString; }
      }
  }
  return typeString;
  \<close>
\<close>

definition renderType ::
  "('node, 'ty) TypeChecker \<Rightarrow> ('node \<Rightarrow> 'node option) \<Rightarrow> 'node \<Rightarrow> string option \<times> LogLine list" where
  "renderType tc parent node =
     (case getTypeAtLocation tc node of
        None \<Rightarrow> (None, [NoTypeFound])
      | Some type \<Rightarrow>
          (let typeString = typeToString tc type node;
               log = [GeneratedTypeString typeString]
           in if typeString = anyMarker then
                (case parent node of
                   None \<Rightarrow> (Some typeString, log)
                 | Some nodeParent \<Rightarrow>
                     (case getTypeAtLocation tc nodeParent of
                        None \<Rightarrow> (Some typeString, log @ [GotAnyTryingParent])
                      | Some parentType \<Rightarrow>
                          if parentType \<noteq> type then
                            (let parentTypeString = typeToString tc parentType nodeParent
                             in (Some (if parentTypeString \<noteq> anyMarker then parentTypeString
                                       else typeString),
                                 log @ [GotAnyTryingParent, ParentTypeString parentTypeString]))
                          else (Some typeString, log @ [GotAnyTryingParent])))
              else (Some typeString, log)))"

text \<open>
  A checker for the nodes of \<^verbatim>\<open>function f(x) { return x; }\<close>: node 0 is the
  parameter, of type \<^verbatim>\<open>any\<close>; node 1, its parent, has a function type; node 2 lies above.
\<close>

definition exampleChecker :: "(nat, nat) TypeChecker" where
  "exampleChecker =
     \<lparr>getTypeAtLocation = (\<lambda>n. if n = 0 then Some 0 else if n = 1 then Some 1 else if n = 2 then Some 2 else None),
      typeToString = (\<lambda>t n. if t = 0 then ''any'' else if t = 1 then ''(x: any) => any'' else ''string'')\<rparr>"

definition exampleParent :: "nat \<Rightarrow> nat option" where
  "exampleParent n = (if n = 0 then Some 1 else if n = 1 then Some 2 else None)"

section \<open>The copy commands\<close>











subsection \<open>The hover-caching variant (src/unnamed/part_000)\<close>










section \<open>Files on disk and the snapshots served to the engine\<close>

text \<open>
  A path on disk as the two host functions see it: \<^verbatim>\<open>fs.existsSync\<close> is false for an
  absent path; \<^verbatim>\<open>fs.readFileSync\<close> returns the text of a readable file and throws for
  anything else.
\<close>

datatype DiskFile = Absent | Unreadable | Readable string

type_synonym Disk = "string \<Rightarrow> DiskFile"

text \<open>
  \<^verbatim>\<open>let content = fileCache.get(fileName); if (!content) ...\<close>: a missing entry and
  the empty string are both falsy.
\<close>

definition truthyContent :: "string option \<Rightarrow> string option" where
  "truthyContent content =
     (case content of None \<Rightarrow> None | Some text \<Rightarrow> if text = [] then None else Some text)"

subsection \<open>The rich variant: initialisation of the service\<close>

text \<open>
  \<^verbatim>\<open>getScriptSnapshot\<close> of the rich variant (lines 248-265): undefined for an absent
  file; the cached text when there is a non-empty one; otherwise the file is read, and
  cached at version 1, or undefined is returned when reading throws.
\<close>

definition getScriptSnapshot ::
  "Disk \<Rightarrow> string \<Rightarrow> ('ls, 'prog, 'tc) State \<Rightarrow> string option \<times> ('ls, 'prog, 'tc) State" where
  "getScriptSnapshot d fileName st =
     (if d fileName = Absent then (None, st)
      else (case truthyContent (fileCache st fileName) of
              Some content \<Rightarrow> (Some content, st)
            | None \<Rightarrow>
                (case d fileName of
                   Readable text \<Rightarrow>
                     (Some text,
                      st\<lparr>fileCache := (fileCache st)(fileName \<mapsto> text),
                         fileVersions := (fileVersions st)(fileName \<mapsto> 1)\<rparr>)
                 | _ \<Rightarrow> (None, st))))"

text \<open>
  What \<^verbatim>\<open>initializeTypeScriptService\<close> takes from outside the module: the directory
  listings and the files on disk; the search for \<^verbatim>\<open>tsconfig.json\<close> in the root and
  its ancestors (\<^verbatim>\<open>findTsConfig\<close>) and whether the file found reads without error; and
  the engine, with the list of files whose snapshot it requests from the host while it
  builds the program. Calls into the engine are taken to return.
\<close>

record ('ls, 'prog, 'tc) Env =
  readdirSync :: FileSystem
  diskState :: Disk
  findTsConfig :: "string \<Rightarrow> string option"
  readsWithoutError :: "string \<Rightarrow> bool"
  createLanguageService :: "ServiceHost \<Rightarrow> 'ls"
  getProgram :: "'ls \<Rightarrow> 'prog option"
  getTypeChecker :: "'prog \<Rightarrow> 'tc option"
  snapshotRequests :: "ServiceHost \<Rightarrow> string list"

text \<open>
  \<^verbatim>\<open>initializeTypeScriptService(rootPath)\<close> (lines 206-279). It assigns
  \<^verbatim>\<open>serviceHost\<close>, \<^verbatim>\<open>languageService\<close>, \<^verbatim>\<open>program\<close> and \<^verbatim>\<open>typeChecker\<close>; the two
  maps are touched only through \<^verbatim>\<open>getScriptSnapshot\<close>, when
  \<^verbatim>\<open>languageService.getProgram()\<close> makes the engine pull the files it needs.
\<close>

definition initializeTypeScriptService ::
  "('ls, 'prog, 'tc) Env \<Rightarrow> string \<Rightarrow> ('ls, 'prog, 'tc) State \<Rightarrow> ('ls, 'prog, 'tc) State" where
  "initializeTypeScriptService env rootPath st =
     (let compilerOptions =
            (case findTsConfig env rootPath of
               None \<Rightarrow> None
             | Some tsconfigPath \<Rightarrow>
                 if readsWithoutError env tsconfigPath then Some tsconfigPath else None);
          host = \<lparr>getScriptFileNames = getAllTsFiles (readdirSync env) rootPath,
                  getCurrentDirectory = rootPath,
                  getCompilationSettings = compilerOptions\<rparr>;
          service = createLanguageService env host;
          st1 = st\<lparr>serviceHost := Some host, languageService := Some service\<rparr>;
          st2 = fold (\<lambda>fileName s. snd (getScriptSnapshot (diskState env) fileName s))
                  (snapshotRequests env host) st1
      in st2\<lparr>program := getProgram env service,
              typeChecker := (case getProgram env service of
                                None \<Rightarrow> None
                              | Some prog \<Rightarrow> getTypeChecker env prog)\<rparr>)"

text \<open>
  Lines 96-105 of \<^verbatim>\<open>getVariableType\<close>:
  \<^verbatim>\<open>
  if (!isServiceInitialized || currentWorkspaceRoot !== rootPath) {
      await initializeTypeScriptService(rootPath);
      currentWorkspaceRoot = rootPath;
      isServiceInitialized = true;
  }
  \<close>
\<close>

definition ensureService ::
  "('ls, 'prog, 'tc) Env \<Rightarrow> string \<Rightarrow> ('ls, 'prog, 'tc) State \<Rightarrow> ('ls, 'prog, 'tc) State" where
  "ensureService env rootPath st =
     (if \<not> isServiceInitialized st \<or> currentWorkspaceRoot st \<noteq> Some rootPath
      then (initializeTypeScriptService env rootPath st)
             \<lparr>currentWorkspaceRoot := Some rootPath, isServiceInitialized := True\<rparr>
      else st)"

text \<open>\<^verbatim>\<open>deactivate\<close> is the one place where the two maps are cleared.\<close>

definition deactivate :: "('ls, 'prog, 'tc) State \<Rightarrow> ('ls, 'prog, 'tc) State" where
  "deactivate st = emptyState"

text \<open>
  Two workspaces, \<^verbatim>\<open>/a\<close> with the file \<^verbatim>\<open>x.ts\<close> and \<^verbatim>\<open>/b\<close> with the file
  \<^verbatim>\<open>y.ts\<close>, and an engine that is handed its host and requests the snapshot of every
  file the host lists.
\<close>

definition twoRoots :: "(ServiceHost, ServiceHost, ServiceHost) Env" where
  "twoRoots =
     \<lparr>readdirSync = (\<lambda>dir. if dir = ''/a'' then Some [Dirent ''x.ts'' False True]
                           else if dir = ''/b'' then Some [Dirent ''y.ts'' False True]
                           else None),
      diskState = (\<lambda>fileName. if fileName = ''/a/x.ts'' then Readable ''let x = 1''
                              else if fileName = ''/b/y.ts'' then Readable ''let y = 2''
                              else Absent),
      findTsConfig = (\<lambda>rootPath. None),
      readsWithoutError = (\<lambda>tsconfigPath. True),
      createLanguageService = (\<lambda>host. host),
      getProgram = (\<lambda>service. Some service),
      getTypeChecker = (\<lambda>prog. Some prog),
      snapshotRequests = getScriptFileNames\<rparr>"

subsection \<open>The simpler variant: the file-text cache\<close>

text \<open>
  The simpler variant (second module of \<^verbatim>\<open>src/src/extension.ts\<close>) keeps only the map
  \<^verbatim>\<open>fileCache\<close>. Its host reports \<^verbatim>\<open>getScriptVersion: (fileName) => '1'\<close>.
\<close>

type_synonym FileCache = "string \<rightharpoonup> string"

definition getScriptVersion_simple :: "string \<Rightarrow> string" where
  "getScriptVersion_simple fileName = ''1''"

text \<open>What a request for a snapshot yields; \<open>ReadThrows\<close> when \<^verbatim>\<open>readFileSync\<close> throws.\<close>

datatype SnapshotResult = Snapshot string | Undefined | ReadThrows

text \<open>
  \<^verbatim>\<open>getScriptSnapshot\<close> of the simpler variant (lines 537-549); here the read is not
  guarded by a \<^verbatim>\<open>try\<close>.
\<close>

definition getScriptSnapshot_simple ::
  "Disk \<Rightarrow> string \<Rightarrow> FileCache \<Rightarrow> SnapshotResult \<times> FileCache" where
  "getScriptSnapshot_simple d fileName cache =
     (if d fileName = Absent then (Undefined, cache)
      else (case truthyContent (cache fileName) of
              Some content \<Rightarrow> (Snapshot content, cache)
            | None \<Rightarrow>
                (case d fileName of
                   Readable text \<Rightarrow> (Snapshot text, cache(fileName \<mapsto> text))
                 | _ \<Rightarrow> (ReadThrows, cache))))"

text \<open>
  What touches the cache during a session: the engine requests the snapshot of a file,
  with the disk as it is at that moment; or \<^verbatim>\<open>initializeTypeScriptService\<close> stores the
  text of the active document (line 565, \<^verbatim>\<open>fileCache.set(fileName, document.getText())\<close>).
\<close>

datatype CacheEvent = RequestSnapshot Disk string | StoreActiveDocument string string

text \<open>
  A session is a list of such events; it yields the snapshots served, each with the
  file it was requested for, and the cache at the end.
\<close>

fun runSession :: "CacheEvent list \<Rightarrow> FileCache \<Rightarrow> (string \<times> SnapshotResult) list \<times> FileCache" where
  "runSession [] cache = ([], cache)"
| "runSession (RequestSnapshot d fileName # events) cache =
     (let (served, cache1) = getScriptSnapshot_simple d fileName cache;
          (rest, cache2) = runSession events cache1
      in ((fileName, served) # rest, cache2))"
| "runSession (StoreActiveDocument fileName text # events) cache =
     runSession events (cache(fileName \<mapsto> text))"

text \<open>The event is not a store of the active document's text under the given name.\<close>

fun leavesAlone :: "string \<Rightarrow> CacheEvent \<Rightarrow> bool" where
  "leavesAlone f (RequestSnapshot d fileName) = True"
| "leavesAlone f (StoreActiveDocument fileName text) = (fileName \<noteq> f)"

section \<open>Properties of node resolution\<close>

lemma fold_visit_concat:
  assumes "\<And>c b. c \<in> set cs \<Longrightarrow> f c b = fold g (h c) b"
  shows "fold f cs b = fold g (concat (map h cs)) b"
  using assms by (induction cs arbitrary: b) simp_all

lemma visit_fold: "visit p t b = fold considerNode (candidates p t) b"
proof (induction p t b rule: visit.induct)
  case (1 p k s e cs b)
  show ?case
  proof (cases "inRange p (Node k s e cs)")
    case True
    have "fold (visit p) cs (considerNode (Node k s e cs) b)
        = fold considerNode (concat (map (candidates p) cs)) (considerNode (Node k s e cs) b)"
      by (rule fold_visit_concat) (use 1 True in blast)
    with True show ?thesis by simp
  next
    case False
    then show ?thesis by simp
  qed
qed

lemma tracks_consider: "tracks b xs \<Longrightarrow> tracks (considerNode x b) (xs @ [x])"
  by (cases "result b") (auto simp: tracks_def considerNode_def tighter_def)

lemma tracks_fold: "tracks b xs \<Longrightarrow> tracks (fold considerNode ys b) (xs @ ys)"
proof (induction ys arbitrary: b xs)
  case Nil
  then show ?case by simp
next
  case (Cons y ys)
  from Cons.IH[OF tracks_consider[OF Cons.prems, of y]] show ?case by simp
qed

lemma tracks_visit: "tracks (visit p t initialBest) (candidates p t)"
  using tracks_fold[of initialBest "[]" "candidates p t"]
  by (simp add: visit_fold tracks_def initialBest_def)

lemma candidates_inRange: "n \<in> set (candidates p t) \<Longrightarrow> inRange p n \<and> n \<in> set (nodes t)"
  by (induction p t arbitrary: n rule: candidates.induct) (auto split: if_splits)

lemma candidates_Nil_iff: "candidates p t = [] \<longleftrightarrow> \<not> inRange p t"
  by (cases t) simp

lemma self_in_nodes: "t \<in> set (nodes t)"
  by (cases t) simp

lemma wellNested_encloses:
  "wellNested t \<Longrightarrow> n \<in> set (nodes t) \<Longrightarrow> getStart t \<le> getStart n \<and> getEnd n \<le> getEnd t"
proof (induction t arbitrary: n rule: nodes.induct)
  case (1 k s e cs)
  from "1.prems"(2) consider "n = Node k s e cs" | c where "c \<in> set cs" "n \<in> set (nodes c)"
    by auto
  then show ?case
  proof cases
    case 1
    then show ?thesis by simp
  next
    case 2
    from "1.prems"(1) 2(1) have c: "s \<le> getStart c" "getEnd c \<le> e" "wellNested c"
      by (auto simp: list_all_iff)
    from "1.IH"[OF 2(1) c(3) 2(2)] c show ?thesis by simp
  qed
qed

lemma wellNested_candidates:
  "wellNested t \<Longrightarrow> n \<in> set (nodes t) \<Longrightarrow> inRange p n \<Longrightarrow> n \<in> set (candidates p t)"
proof (induction t arbitrary: n rule: nodes.induct)
  case (1 k s e cs)
  from wellNested_encloses[OF "1.prems"(1,2)] "1.prems"(3) have self: "inRange p (Node k s e cs)"
    by (auto simp: inRange_def)
  from "1.prems"(2) consider "n = Node k s e cs" | c where "c \<in> set cs" "n \<in> set (nodes c)"
    by auto
  then show ?case
  proof cases
    case 1
    with self show ?thesis by simp
  next
    case 2
    from "1.prems"(1) 2(1) have "wellNested c"
      by (auto simp: list_all_iff)
    from "1.IH"[OF 2(1) this 2(2) "1.prems"(3)] 2(1) self show ?thesis
      by auto
  qed
qed

text \<open>
  Claim C5. The rich resolver returns none exactly when the root's range does not
  contain the offset, in particular when no node of the file contains it. Otherwise it
  returns a node of the file whose range contains the offset, reached by descending
  only through nodes that contain the offset, and no node reached that way is tighter:
  none starts later, and none with the same start ends earlier. On a tree whose
  children lie within their parents, the nodes reached are all the nodes that contain
  the offset, so the result is a tightest node among all of them.
\<close>

theorem findMostSpecificNodeAtPosition_tightest:
  "(findMostSpecificNodeAtPosition t p = None \<longleftrightarrow> \<not> inRange p t)
   \<and> ((\<forall>n\<in>set (nodes t). \<not> inRange p n) \<longrightarrow> findMostSpecificNodeAtPosition t p = None)
   \<and> (\<forall>r. findMostSpecificNodeAtPosition t p = Some r \<longrightarrow>
          r \<in> set (nodes t) \<and> inRange p r \<and> r \<in> set (candidates p t)
          \<and> (\<forall>c\<in>set (candidates p t). \<not> tighter c r))
   \<and> (wellNested t \<longrightarrow> set (candidates p t) = {n \<in> set (nodes t). inRange p n})"
proof -
  note tr = tracks_visit[of p t]
  have a: "findMostSpecificNodeAtPosition t p = None \<longleftrightarrow> \<not> inRange p t"
    using tr candidates_Nil_iff[of p t]
    by (auto simp: findMostSpecificNodeAtPosition_def tracks_def split: option.splits)
  have b: "(\<forall>n\<in>set (nodes t). \<not> inRange p n) \<longrightarrow> findMostSpecificNodeAtPosition t p = None"
    using a self_in_nodes[of t] by blast
  have c: "\<forall>r. findMostSpecificNodeAtPosition t p = Some r \<longrightarrow>
          r \<in> set (nodes t) \<and> inRange p r \<and> r \<in> set (candidates p t)
          \<and> (\<forall>c\<in>set (candidates p t). \<not> tighter c r)"
    using tr candidates_inRange[of _ p t]
    by (auto simp: findMostSpecificNodeAtPosition_def tracks_def split: option.splits)
  have d: "wellNested t \<longrightarrow> set (candidates p t) = {n \<in> set (nodes t). inRange p n}"
    using candidates_inRange[of _ p t] wellNested_candidates[of t _ p] by blast
  from a b c d show ?thesis by blast
qed

theorem findMostSpecificNodeAtPosition_tightest_witness:
  "findMostSpecificNodeAtPosition letFoo 4 = Some (Node ''Identifier'' 4 5 [])
   \<and> Node ''Identifier'' 4 5 [] \<in> set (nodes letFoo)
   \<and> inRange 4 (Node ''Identifier'' 4 5 [])
   \<and> list_all (\<lambda>c. \<not> tighter c (Node ''Identifier'' 4 5 [])) (candidates 4 letFoo)
   \<and> wellNested letFoo
   \<and> set (candidates 4 letFoo) = set (filter (inRange 4) (nodes letFoo))
   \<and> list_all (\<lambda>n. \<not> inRange 11 n) (nodes letFoo)
   \<and> findMostSpecificNodeAtPosition letFoo 11 = None"
proof -
  have r: "findMostSpecificNodeAtPosition letFoo 4 = Some (Node ''Identifier'' 4 5 [])"
    by (simp add: findMostSpecificNodeAtPosition_def letFoo_def initialBest_def inRange_def
        considerNode_def)
  have w: "wellNested letFoo"
    by (simp add: letFoo_def)
  have n: "\<forall>n\<in>set (nodes letFoo). \<not> inRange 11 n"
    by (simp add: letFoo_def inRange_def)
  have "set (filter (inRange 4) (nodes letFoo)) = {n \<in> set (nodes letFoo). inRange 4 n}"
    by simp
  with r w n findMostSpecificNodeAtPosition_tightest[of letFoo 4]
    findMostSpecificNodeAtPosition_tightest[of letFoo 11]
  show ?thesis unfolding list_all_iff by blast
qed

subsection \<open>The two resolvers on a leaf\<close>

lemma wellFormed_wellNested: "wellFormed t \<Longrightarrow> wellNested t"
  by (induction t rule: wellFormed.induct) (auto simp: list_all_iff)

lemma find_node_None_iff: "find_node p t = None \<longleftrightarrow> \<not> inRange p t"
  by (cases t) (simp split: option.splits)

lemma find_node_outside: "\<not> inRange p t \<Longrightarrow> find_node p t = None"
  by (simp add: find_node_None_iff)

lemma only_child_inRange:
  "disjointSiblings cs \<Longrightarrow> c \<in> set cs \<Longrightarrow> inRange p c \<Longrightarrow>
     concat (map (candidates p) cs) = candidates p c \<and> forEachChild_find p cs = find_node p c"
proof (induction cs)
  case Nil
  then show ?case by simp
next
  case (Cons x xs)
  show ?case
  proof (cases "inRange p x")
    case True
    have others: "\<not> inRange p d" if "d \<in> set xs" for d
    proof
      assume "inRange p d"
      with True have "overlaps x d" by (auto simp: overlaps_def inRange_def)
      with Cons.prems(1) that show False by (auto simp: list_all_iff)
    qed
    with Cons.prems(2,3) have cx: "c = x" by auto
    from others have "concat (map (candidates p) xs) = []"
      by (auto simp: candidates_Nil_iff)
    moreover from True obtain r where "find_node p x = Some r"
      using find_node_None_iff[of p x] by (cases "find_node p x") auto
    ultimately show ?thesis using cx by simp
  next
    case False
    with Cons.prems have "c \<in> set xs" by auto
    from Cons.IH[OF _ this Cons.prems(3)] Cons.prems(1) False show ?thesis
      using find_node_None_iff[of p x] candidates_Nil_iff[of p x] by simp
  qed
qed

lemma no_child_inRange:
  "\<forall>c\<in>set cs. \<not> inRange p c \<Longrightarrow>
     concat (map (candidates p) cs) = [] \<and> forEachChild_find p cs = None"
  by (induction cs) (auto simp: candidates_Nil_iff find_node_outside)

lemma candidates_path:
  assumes "wellFormed (Node k s e cs)" "inRange p (Node k s e cs)"
  shows "(\<exists>c\<in>set cs. inRange p c \<and> wellFormed c
            \<and> candidates p (Node k s e cs) = Node k s e cs # candidates p c
            \<and> find_node p (Node k s e cs) = find_node p c)
       \<or> ((\<forall>c\<in>set cs. \<not> inRange p c) \<and> candidates p (Node k s e cs) = [Node k s e cs]
            \<and> find_node p (Node k s e cs) = Some (Node k s e cs))"
proof (cases "\<exists>c\<in>set cs. inRange p c")
  case True
  then obtain c where c: "c \<in> set cs" "inRange p c" by blast
  from assms(1) have d: "disjointSiblings cs" and w: "wellFormed c"
    using c(1) by (auto simp: list_all_iff)
  from only_child_inRange[OF d c] assms(2) c w
  have "candidates p (Node k s e cs) = Node k s e cs # candidates p c"
    "find_node p (Node k s e cs) = find_node p c"
    using find_node_None_iff[of p c] by (auto split: option.splits)
  with c w show ?thesis by blast
next
  case False
  with no_child_inRange[of cs p] assms(2) show ?thesis by simp
qed

lemma find_node_last:
  "wellFormed t \<Longrightarrow> inRange p t \<Longrightarrow> find_node p t = Some (last (candidates p t))"
proof (induction t rule: wellFormed.induct)
  case (1 k s e cs)
  from candidates_path[OF "1.prems"] show ?case
  proof
    assume "\<exists>c\<in>set cs. inRange p c \<and> wellFormed c
            \<and> candidates p (Node k s e cs) = Node k s e cs # candidates p c
            \<and> find_node p (Node k s e cs) = find_node p c"
    then obtain c where c: "c \<in> set cs" "inRange p c" "wellFormed c"
      "candidates p (Node k s e cs) = Node k s e cs # candidates p c"
      "find_node p (Node k s e cs) = find_node p c" by blast
    from "1.IH"[OF c(1,3,2)] c(2,4,5) show ?thesis
      using candidates_Nil_iff[of p c] by simp
  next
    assume "(\<forall>c\<in>set cs. \<not> inRange p c) \<and> candidates p (Node k s e cs) = [Node k s e cs]
            \<and> find_node p (Node k s e cs) = Some (Node k s e cs)"
    then show ?thesis by simp
  qed
qed

lemma candidates_chain:
  "wellFormed t \<Longrightarrow> inRange p t \<Longrightarrow>
     hd (candidates p t) = t \<and> parentChain (candidates p t) \<and> sorted_wrt encloses (candidates p t)"
proof (induction t rule: wellFormed.induct)
  case (1 k s e cs)
  from candidates_path[OF "1.prems"] show ?case
  proof
    assume "\<exists>c\<in>set cs. inRange p c \<and> wellFormed c
            \<and> candidates p (Node k s e cs) = Node k s e cs # candidates p c
            \<and> find_node p (Node k s e cs) = find_node p c"
    then obtain c where c: "c \<in> set cs" "inRange p c" "wellFormed c"
      "candidates p (Node k s e cs) = Node k s e cs # candidates p c" by blast
    from "1.IH"[OF c(1,3,2)] have ih: "hd (candidates p c) = c" "parentChain (candidates p c)"
      "sorted_wrt encloses (candidates p c)" by simp_all
    from c(2) obtain ys where ys: "candidates p c = c # ys"
      using candidates_Nil_iff[of p c] ih(1) by (cases "candidates p c") auto
    have "encloses (Node k s e cs) n" if "n \<in> set (candidates p c)" for n
    proof -
      from that candidates_inRange[of n p c] c(1) have "n \<in> set (nodes (Node k s e cs))" by auto
      from wellNested_encloses[OF wellFormed_wellNested[OF "1.prems"(1)] this]
      show ?thesis by (simp add: encloses_def)
    qed
    with ih ys c(1,4) show ?thesis by simp
  next
    assume "(\<forall>c\<in>set cs. \<not> inRange p c) \<and> candidates p (Node k s e cs) = [Node k s e cs]
            \<and> find_node p (Node k s e cs) = Some (Node k s e cs)"
    then show ?thesis by simp
  qed
qed

lemma leaf_is_last:
  "wellFormed t \<Longrightarrow> L \<in> set (nodes t) \<Longrightarrow> children L = [] \<Longrightarrow> inRange p L \<Longrightarrow>
     inRange p t \<and> last (candidates p t) = L"
proof (induction t rule: wellFormed.induct)
  case (1 k s e cs)
  from wellNested_encloses[OF wellFormed_wellNested[OF "1.prems"(1)] "1.prems"(2)] "1.prems"(4)
  have self: "inRange p (Node k s e cs)" by (auto simp: inRange_def)
  from "1.prems"(2) consider "L = Node k s e cs" | c where "c \<in> set cs" "L \<in> set (nodes c)"
    by auto
  then show ?case
  proof cases
    case 1
    with "1.prems"(3) self show ?thesis by simp
  next
    case 2
    from "1.prems"(1) 2(1) have wc: "wellFormed c" and d: "disjointSiblings cs"
      by (auto simp: list_all_iff)
    from "1.IH"[OF 2(1) wc 2(2) "1.prems"(3,4)] have ih: "inRange p c" "last (candidates p c) = L"
      by simp_all
    from only_child_inRange[OF d 2(1) ih(1)] self ih candidates_Nil_iff[of p c]
    show ?thesis by simp
  qed
qed

lemma find_append_Some:
  "List.find P (xs @ ys) = (case List.find P xs of None \<Rightarrow> List.find P ys | Some a \<Rightarrow> Some a)"
  by (induction xs) auto

lemma considerNode_keep:
  "bestStart b = int (getStart x) \<Longrightarrow> bestEnd b = enat (getEnd x) \<Longrightarrow> considerNode x b = b"
  by (simp add: considerNode_def)

lemma considerNode_take:
  "bestStart b < int (getStart x) \<or> (bestStart b = int (getStart x) \<and> enat (getEnd x) < bestEnd b)
   \<Longrightarrow> considerNode x b
       = \<lparr>result = Some x, bestStart = int (getStart x), bestEnd = enat (getEnd x)\<rparr>"
  by (auto simp: considerNode_def)

lemma fold_considerNode_sorted:
  "xs \<noteq> [] \<Longrightarrow> sorted_wrt encloses xs \<Longrightarrow>
     result (fold considerNode xs initialBest) = List.find (sameRange (last xs)) xs
     \<and> bestStart (fold considerNode xs initialBest) = int (getStart (last xs))
     \<and> bestEnd (fold considerNode xs initialBest) = enat (getEnd (last xs))"
proof (induction xs rule: rev_nonempty_induct)
  case (single x)
  then show ?case by (simp add: considerNode_def initialBest_def sameRange_def)
next
  case (snoc x xs)
  from snoc.prems have sorted: "sorted_wrt encloses xs" and enc: "\<forall>a\<in>set xs. encloses a x"
    by (auto simp: sorted_wrt_append)
  note ih = snoc.IH[OF sorted]
  from snoc.hyps(1) have lastin: "last xs \<in> set xs" by simp
  with enc have el: "encloses (last xs) x" by blast
  let ?b = "fold considerNode xs initialBest"
  have step: "fold considerNode (xs @ [x]) initialBest = considerNode x ?b"
    by simp
  show ?case
  proof (cases "sameRange (last xs) x")
    case True
    then have eq: "sameRange x = sameRange (last xs)"
      by (auto simp: sameRange_def fun_eq_iff)
    have "sameRange (last xs) (last xs)" by (simp add: sameRange_def)
    with lastin obtain a where a: "List.find (sameRange (last xs)) xs = Some a"
      by (cases "List.find (sameRange (last xs)) xs") (auto simp: find_None_iff)
    from ih True have keep: "considerNode x ?b = ?b"
      by (intro considerNode_keep) (simp_all add: sameRange_def)
    from a eq have "List.find (sameRange (last (xs @ [x]))) (xs @ [x]) = Some a"
      by (simp add: find_append_Some)
    moreover from ih a have "result ?b = Some a" by simp
    moreover from ih True have "bestStart ?b = int (getStart x)" "bestEnd ?b = enat (getEnd x)"
      by (simp_all add: sameRange_def)
    ultimately show ?thesis
      unfolding step keep by simp
  next
    case False
    with el have t: "getStart (last xs) < getStart x
        \<or> (getStart (last xs) = getStart x \<and> getEnd x < getEnd (last xs))"
      by (auto simp: encloses_def sameRange_def)
    have none: "List.find (sameRange x) xs = None"
    proof -
      have "\<not> sameRange x a" if a: "a \<in> set xs" for a
      proof
        assume s: "sameRange x a"
        from sorted snoc.hyps(1) a have "encloses a (last xs) \<or> a = last xs"
          by (metis append_butlast_last_id sorted_wrt_append list.set_intros(1) set_ConsD
              set_append Un_iff empty_iff empty_set)
        then have "encloses a (last xs)" by (auto simp: encloses_def)
        with s el have "sameRange (last xs) x" by (auto simp: encloses_def sameRange_def)
        with False show False by simp
      qed
      then show ?thesis by (simp add: find_None_iff)
    qed
    from t ih have upd: "considerNode x ?b
        = \<lparr>result = Some x, bestStart = int (getStart x), bestEnd = enat (getEnd x)\<rparr>"
      by (intro considerNode_take) auto
    have "sameRange x x" by (simp add: sameRange_def)
    with none have "List.find (sameRange (last (xs @ [x]))) (xs @ [x]) = Some x"
      by (simp add: find_append_Some)
    then show ?thesis unfolding step upd by simp
  qed
qed

text \<open>
  Claim C7, as the code has it. In a well-formed tree, for an offset inside a leaf, the
  nodes visited are the path from the root to that leaf. The greedy resolver returns the
  leaf. The rich resolver returns the first node on the path whose range equals the
  leaf's range: the leaf itself when no node above it on the path has the same range,
  otherwise the outermost such node. No other leaf contains the offset. Both resolvers
  are functions of the tree and the offset alone, so a repeated call returns the same
  node.
\<close>

theorem resolvers_on_leaf:
  assumes "wellFormed t" and "L \<in> set (leaves t)" and "inRange p L"
  shows "findNodeAtPosition t p = Some L
    \<and> hd (candidates p t) = t \<and> last (candidates p t) = L \<and> parentChain (candidates p t)
    \<and> findMostSpecificNodeAtPosition t p = List.find (sameRange L) (candidates p t)
    \<and> (\<exists>r. findMostSpecificNodeAtPosition t p = Some r \<and> sameRange L r)
    \<and> ((\<forall>c\<in>set (candidates p t). sameRange L c \<longrightarrow> c = L) \<longrightarrow>
          findMostSpecificNodeAtPosition t p = Some L)
    \<and> (\<forall>l\<in>set (leaves t). inRange p l \<longrightarrow> l = L)"
proof -
  from assms(2) have L: "L \<in> set (nodes t)" "children L = []" by (simp_all add: leaves_def)
  from leaf_is_last[OF assms(1) L assms(3)] have in_t: "inRange p t" and last: "last (candidates p t) = L"
    by simp_all
  from in_t have ne: "candidates p t \<noteq> []" by (simp add: candidates_Nil_iff)
  from find_node_last[OF assms(1) in_t] last have g: "findNodeAtPosition t p = Some L"
    by (simp add: findNodeAtPosition_def)
  note ch = candidates_chain[OF assms(1) in_t]
  from fold_considerNode_sorted[OF ne] ch last
  have r: "findMostSpecificNodeAtPosition t p = List.find (sameRange L) (candidates p t)"
    by (simp add: findMostSpecificNodeAtPosition_def visit_fold)
  from ne last have Lin: "L \<in> set (candidates p t)" by (metis last_in_set)
  have sL: "sameRange L L" by (simp add: sameRange_def)
  from Lin sL obtain r' where r': "List.find (sameRange L) (candidates p t) = Some r'"
    by (cases "List.find (sameRange L) (candidates p t)") (auto simp: find_None_iff)
  then have r'p: "sameRange L r'" "r' \<in> set (candidates p t)"
    by (auto simp: find_Some_iff)
  have only: "\<forall>l\<in>set (leaves t). inRange p l \<longrightarrow> l = L"
  proof (intro ballI impI)
    fix l
    assume "l \<in> set (leaves t)" and i: "inRange p l"
    then have "l \<in> set (nodes t)" "children l = []" by (simp_all add: leaves_def)
    from leaf_is_last[OF assms(1) this i] last show "l = L" by simp
  qed
  from g ch last r r' r'p only show ?thesis by auto
qed

theorem resolvers_on_leaf_witness:
  "wellFormed letFoo
   \<and> Node ''Identifier'' 4 5 [] \<in> set (leaves letFoo)
   \<and> inRange 4 (Node ''Identifier'' 4 5 [])
   \<and> findNodeAtPosition letFoo 4 = Some (Node ''Identifier'' 4 5 [])
   \<and> last (candidates 4 letFoo) = Node ''Identifier'' 4 5 []
   \<and> list_all (\<lambda>c. \<not> sameRange (Node ''Identifier'' 4 5 []) c \<or> c = Node ''Identifier'' 4 5 [])
         (candidates 4 letFoo)
   \<and> findMostSpecificNodeAtPosition letFoo 4 = Some (Node ''Identifier'' 4 5 [])"
proof -
  have w: "wellFormed letFoo"
    by (simp add: letFoo_def overlaps_def)
  have l: "Node ''Identifier'' 4 5 [] \<in> set (leaves letFoo)"
    by (simp add: leaves_def letFoo_def)
  have i: "inRange 4 (Node ''Identifier'' 4 5 [])"
    by (simp add: inRange_def)
  have only: "\<forall>c\<in>set (candidates 4 letFoo).
      sameRange (Node ''Identifier'' 4 5 []) c \<longrightarrow> c = Node ''Identifier'' 4 5 []"
    by (simp add: letFoo_def inRange_def sameRange_def)
  from resolvers_on_leaf[OF w l i] only w l i show ?thesis
    unfolding list_all_iff by blast
qed

text \<open>
  Claim C7 as stated fails on the file \<^verbatim>\<open>let a: Foo;\<close> at offset 8, inside the
  identifier \<^verbatim>\<open>Foo\<close>, the only leaf containing that offset: the greedy resolver
  returns the identifier, the rich resolver returns the enclosing \<^verbatim>\<open>TypeReference\<close>,
  which has the same range and is visited first.
\<close>

theorem resolvers_differ_on_letFoo:
  "filter (inRange 8) (leaves letFoo) = [Node ''Identifier'' 7 10 []]
   \<and> findNodeAtPosition letFoo 8 = Some (Node ''Identifier'' 7 10 [])
   \<and> findMostSpecificNodeAtPosition letFoo 8
       = Some (Node ''TypeReference'' 7 10 [Node ''Identifier'' 7 10 []])
   \<and> findMostSpecificNodeAtPosition letFoo 8 \<noteq> findNodeAtPosition letFoo 8"
proof -
  have a: "filter (inRange 8) (leaves letFoo) = [Node ''Identifier'' 7 10 []]"
    by (simp add: leaves_def letFoo_def inRange_def)
  have b: "findNodeAtPosition letFoo 8 = Some (Node ''Identifier'' 7 10 [])"
    by (simp add: findNodeAtPosition_def letFoo_def inRange_def)
  have c: "findMostSpecificNodeAtPosition letFoo 8
       = Some (Node ''TypeReference'' 7 10 [Node ''Identifier'' 7 10 []])"
    by (simp add: findMostSpecificNodeAtPosition_def letFoo_def initialBest_def inRange_def
        considerNode_def)
  from a b c show ?thesis by simp
qed

section \<open>Properties of source-file enumeration\<close>

lemma files_bound:
  "length (files (searchFiles fs dir depth st)) \<le> max (length (files st)) (maxFiles + 1)"
  "length (files (searchEntries fs dir depth es st)) \<le> max (length (files st)) (maxFiles + 1)"
proof (induction fs dir depth st and fs dir depth es st rule: searchFiles_searchEntries.induct)
  case (1 fs dir depth st)
  then show ?case
    by (auto simp: searchFiles.simps[of fs dir depth st] split: option.splits)
next
  case (2 fs dir depth st)
  then show ?case by simp
next
  case (3 fs dir depth entry entries st)
  show ?case
  proof (cases "length (files st) > maxFiles")
    case True
    then show ?thesis by (simp add: searchEntries.simps(2))
  next
    case False
    with 3 show ?thesis
      by (auto simp: searchEntries.simps(2)[of fs dir depth entry entries st])
  qed
qed

lemma extname_ts: "b \<noteq> [] \<Longrightarrow> extname (b @ ''.ts'') = ''.ts''"
  by (auto simp: extname_def Let_def)

lemma searchEntries_flat:
  "\<forall>e\<in>set es. \<not> isDirectory e \<and> isFile e \<and> extname (name e) = ''.ts'' \<Longrightarrow>
     files (searchEntries fs dir depth es st)
       = files st @ take (maxFiles + 1 - length (files st)) (map (\<lambda>e. path_join dir (name e)) es)"
proof (induction es arbitrary: st)
  case Nil
  then show ?case by simp
next
  case (Cons e es)
  show ?case
  proof (cases "length (files st) > maxFiles")
    case True
    then show ?thesis by (simp add: searchEntries.simps(2))
  next
    case False
    then have "maxFiles + 1 - length (files st) = Suc (maxFiles - length (files st))" by simp
    with False Cons show ?thesis
      by (simp add: searchEntries.simps(2)[of fs dir depth e es st])
  qed
qed

lemma getAllTsFiles_length_bound: "length (getAllTsFiles fs rootPath) \<le> maxFiles + 1"
  using files_bound(1)[of fs rootPath 0 initialWalk]
  by (simp add: getAllTsFiles_def initialWalk_def)

text \<open>
  Claim C2, the code at the failing input. For a root directory that holds 2000 source
  files, the enumeration returns 1001 paths, one more than the configured maximum of
  1000: the loop tests \<^verbatim>\<open>files.length > maxFiles\<close> before each push, so the push at
  length 1000 still happens.
\<close>

theorem getAllTsFiles_flatProject_1001:
  "length (getAllTsFiles flatProject ''/project'') = 1001"
proof -
  have "\<forall>e\<in>set (sourceFiles 2000). \<not> isDirectory e \<and> isFile e \<and> extname (name e) = ''.ts''"
    using extname_ts[of "''f'' @ decimal i" for i] by (auto simp: sourceFiles_def)
  from searchEntries_flat[OF this] show ?thesis
    by (simp add: getAllTsFiles_def searchFiles.simps[of flatProject "''/project''" 0]
        flatProject_def initialWalk_def maxDepth_def maxFiles_def sourceFiles_def)
qed

lemma basename_path_join: "CHR ''/'' \<notin> set n \<Longrightarrow> basename (path_join d n) = n"
proof (cases "d \<noteq> [] \<and> last d = CHR ''/''")
  case True
  then obtain d' where "d = d' @ ''/''"
    by (cases d rule: rev_cases) auto
  moreover assume "CHR ''/'' \<notin> set n"
  ultimately show ?thesis
    by (simp add: basename_def path_join_def takeWhile_append)
next
  case False
  moreover assume "CHR ''/'' \<notin> set n"
  ultimately show ?thesis
    by (auto simp: basename_def path_join_def takeWhile_append)
qed

lemma visited_ok:
  "slashFree fs \<Longrightarrow>
     (if depth = 0 then dir = rootPath
      else basename dir \<notin> set skipDirs \<and> \<not> startsWith (basename dir) ''.'') \<Longrightarrow>
     list_all (okVisit rootPath) (visited st) \<Longrightarrow>
     list_all (okVisit rootPath) (visited (searchFiles fs dir depth st))"
  "slashFree fs \<Longrightarrow> \<forall>e\<in>set es. CHR ''/'' \<notin> set (name e) \<Longrightarrow>
     list_all (okVisit rootPath) (visited st) \<Longrightarrow>
     list_all (okVisit rootPath) (visited (searchEntries fs dir depth es st))"
proof (induction fs dir depth st and fs dir depth es st rule: searchFiles_searchEntries.induct)
  case (1 fs dir depth st)
  show ?case
  proof (cases "depth > maxDepth \<or> length (files st) > maxFiles")
    case True
    with "1.prems" show ?thesis by (simp add: searchFiles.simps[of fs dir depth st])
  next
    case False
    with "1.prems"(2) have "okVisit rootPath (dir, depth)"
      by (auto simp: okVisit_def)
    with "1.prems"(3) have ok: "list_all (okVisit rootPath) (visited st @ [(dir, depth)])"
      by simp
    show ?thesis
    proof (cases "fs dir")
      case None
      with False ok show ?thesis by (simp add: searchFiles.simps[of fs dir depth st])
    next
      case (Some entries)
      with "1.prems"(1) have "\<forall>e\<in>set entries. CHR ''/'' \<notin> set (name e)"
        by (auto simp: slashFree_def)
      from "1.IH"[OF False Some "1.prems"(1) this] ok Some False show ?thesis
        by (simp add: searchFiles.simps[of fs dir depth st])
    qed
  qed
next
  case (2 fs dir depth st)
  then show ?case by simp
next
  case (3 fs dir depth entry entries st)
  from "3.prems"(2) have rest: "\<forall>e\<in>set entries. CHR ''/'' \<notin> set (name e)"
    and nm: "CHR ''/'' \<notin> set (name entry)" by simp_all
  show ?case
  proof (cases "length (files st) > maxFiles")
    case True
    with "3.prems" show ?thesis by (simp add: searchEntries.simps(2))
  next
    case False
    show ?thesis
    proof (cases "isDirectory entry")
      case dir: True
      show ?thesis
      proof (cases "name entry \<notin> set skipDirs \<and> \<not> startsWith (name entry) ''.''")
        case True
        with nm have start: "if depth + 1 = 0 then path_join dir (name entry) = rootPath
          else basename (path_join dir (name entry)) \<notin> set skipDirs
             \<and> \<not> startsWith (basename (path_join dir (name entry))) ''.''"
          by (simp add: basename_path_join)
        note inner = "3.IH"(1)[OF False dir True "3.prems"(1) start "3.prems"(3)]
        from "3.IH"(2)[OF False dir True "3.prems"(1) rest inner] False dir True
        show ?thesis by (simp add: searchEntries.simps(2)[of fs dir depth entry entries st])
      next
        case skip: False
        from "3.IH"(3)[OF False dir skip "3.prems"(1) rest "3.prems"(3)] False dir skip
        show ?thesis by (auto simp: searchEntries.simps(2)[of fs dir depth entry entries st])
      qed
    next
      case nodir: False
      show ?thesis
      proof (cases "isFile entry")
        case isfile: True
        show ?thesis
        proof (cases "extname (name entry) \<in> set [''.ts'', ''.tsx'', ''.js'', ''.jsx'']")
          case True
          from "3.IH"(4)[OF False nodir isfile True "3.prems"(1) rest] "3.prems"(3) False nodir isfile True
          show ?thesis by (simp add: searchEntries.simps(2)[of fs dir depth entry entries st])
        next
          case noext: False
          from "3.IH"(5)[OF False nodir isfile noext "3.prems"(1) rest "3.prems"(3)] False nodir isfile noext
          show ?thesis by (auto simp: searchEntries.simps(2)[of fs dir depth entry entries st])
        qed
      next
        case other: False
        from "3.IH"(6)[OF False nodir other "3.prems"(1) rest "3.prems"(3)] False nodir other
        show ?thesis by (simp add: searchEntries.simps(2)[of fs dir depth entry entries st])
      qed
    qed
  qed
qed

lemma unreadable_as_empty:
  "fs1 = fs(d := None) \<Longrightarrow> searchFiles fs1 dir depth st = searchFiles (fs(d := Some [])) dir depth st"
  "fs1 = fs(d := None) \<Longrightarrow>
     searchEntries fs1 dir depth es st = searchEntries (fs(d := Some [])) dir depth es st"
proof (induction fs1 dir depth st and fs1 dir depth es st rule: searchFiles_searchEntries.induct)
  case (1 fs1 dir depth st)
  note unf = searchFiles.simps[of fs1 dir depth st]
    searchFiles.simps[of "fs(d := Some [])" dir depth st]
  show ?case
  proof (cases "depth > maxDepth \<or> length (files st) > maxFiles")
    case True
    then show ?thesis unfolding unf by simp
  next
    case False
    show ?thesis
    proof (cases "fs1 dir")
      case None
      with False "1.prems" show ?thesis unfolding unf
        by (cases "dir = d") simp_all
    next
      case (Some entries)
      with "1.prems" have neq: "dir \<noteq> d" by auto
      from "1.IH"[OF False Some "1.prems"] False neq Some "1.prems" show ?thesis
        unfolding unf by (simp add: fun_upd_def)
    qed
  qed
next
  case (2 fs1 dir depth st)
  then show ?case by simp
next
  case (3 fs1 dir depth entry entries st)
  show ?case
  proof (cases "length (files st) > maxFiles")
    case True
    then show ?thesis by (simp add: searchEntries.simps(2))
  next
    case False
    with 3 show ?thesis
      by (simp add: searchEntries.simps(2)[of _ dir depth entry entries st])
  qed
qed

text \<open>
  Claim C6. In a file system whose entry names contain no separator, every directory
  the walk lists is the root, or lies at a depth of at most 10 and has a name that is
  neither in the skip-list nor starts with a dot. A directory that cannot be read is
  passed over without an error and the walk goes on: the files returned are those
  returned when that directory is empty.
\<close>

theorem searchFiles_skips_and_bounds_depth:
  assumes "slashFree fs"
  shows "list_all (okVisit rootPath) (visited (searchFiles fs rootPath 0 initialWalk))
       \<and> getAllTsFiles (fs(d := None)) rootPath = getAllTsFiles (fs(d := Some [])) rootPath"
  using visited_ok(1)[OF assms, of 0 rootPath rootPath initialWalk]
    unreadable_as_empty(1)[of "fs(d := None)" fs d rootPath 0 initialWalk]
  by (simp add: initialWalk_def getAllTsFiles_def)

theorem searchFiles_skips_and_bounds_depth_witness:
  "visited (searchFiles smallProject ''/w'' 0 initialWalk)
     = [(''/w'', 0), (''/w/src'', 1), (''/w/locked'', 1)]
   \<and> list_all (okVisit ''/w'') (visited (searchFiles smallProject ''/w'' 0 initialWalk))
   \<and> getAllTsFiles (smallProject(''/w/locked'' := None)) ''/w'' = [''/w/src/a.tsx'', ''/w/index.ts'']
   \<and> getAllTsFiles (smallProject(''/w/locked'' := Some [])) ''/w'' = [''/w/src/a.tsx'', ''/w/index.ts'']"
proof -
  have sf: "slashFree smallProject"
    by (auto simp: slashFree_def smallProject_def split: if_splits)
  have v: "visited (searchFiles smallProject ''/w'' 0 initialWalk)
     = [(''/w'', 0), (''/w/src'', 1), (''/w/locked'', 1)]"
    by (simp add: searchFiles.simps searchEntries.simps(2) smallProject_def initialWalk_def
        maxDepth_def maxFiles_def skipDirs_def startsWith_def path_join_def extname_def)
  have f: "getAllTsFiles (smallProject(''/w/locked'' := None)) ''/w''
      = [''/w/src/a.tsx'', ''/w/index.ts'']"
    by (simp add: getAllTsFiles_def searchFiles.simps searchEntries.simps(2) smallProject_def
        initialWalk_def maxDepth_def maxFiles_def skipDirs_def startsWith_def path_join_def
        extname_def)
  from searchFiles_skips_and_bounds_depth[OF sf, of "''/w''" "''/w/locked''"] v f
  show ?thesis by simp
qed

section \<open>Properties of the file-text cache\<close>

text \<open>
  Claim C3. A query whose text equals the cached text leaves the state, and so the
  version of the path, unchanged; hence a second query with the same text changes
  nothing. A query whose text differs from the cached text (or finds none cached)
  stores the new text and raises the version the host reports for the path by exactly
  one. The reported version of the path never decreases, and no other path is touched.
\<close>

theorem updateFileCache_version_policy:
  "(fileCache st f = Some c \<longrightarrow> updateFileCache f c st = st)
   \<and> updateFileCache f c (updateFileCache f c st) = updateFileCache f c st
   \<and> (fileCache st f \<noteq> Some c \<longrightarrow>
        fileCache (updateFileCache f c st) f = Some c
        \<and> getScriptVersion (updateFileCache f c st) f = getScriptVersion st f + 1)
   \<and> getScriptVersion st f \<le> getScriptVersion (updateFileCache f c st) f
   \<and> (g \<noteq> f \<longrightarrow>
        fileCache (updateFileCache f c st) g = fileCache st g
        \<and> fileVersions (updateFileCache f c st) g = fileVersions st g)"
  by (simp add: updateFileCache_def getScriptVersion_def)

theorem updateFileCache_version_policy_witness:
  "fileCache (emptyState :: (unit, unit, unit) State) ''/p/a.ts'' \<noteq> Some ''let x = 1''
   \<and> fileCache (updateFileCache ''/p/a.ts'' ''let x = 1'' (emptyState :: (unit, unit, unit) State))
         ''/p/a.ts'' = Some ''let x = 1''
   \<and> getScriptVersion (updateFileCache ''/p/a.ts'' ''let x = 1'' (emptyState :: (unit, unit, unit) State))
         ''/p/a.ts'' = 2
   \<and> updateFileCache ''/p/a.ts'' ''let x = 1''
         (updateFileCache ''/p/a.ts'' ''let x = 1'' (emptyState :: (unit, unit, unit) State))
       = updateFileCache ''/p/a.ts'' ''let x = 1'' emptyState
   \<and> fileVersions (updateFileCache ''/p/a.ts'' ''let x = 1'' (emptyState :: (unit, unit, unit) State))
         ''/p/b.ts'' = None"
proof -
  let ?st = "emptyState :: (unit, unit, unit) State"
  let ?st1 = "updateFileCache ''/p/a.ts'' ''let x = 1'' ?st"
  have miss: "fileCache ?st ''/p/a.ts'' \<noteq> Some ''let x = 1''"
    by (simp add: emptyState_def)
  have v: "getScriptVersion ?st ''/p/a.ts'' = 1" "fileVersions ?st ''/p/b.ts'' = None"
    by (simp_all add: emptyState_def getScriptVersion_def)
  have ne: "''/p/b.ts'' \<noteq> ''/p/a.ts''"
    by simp
  from updateFileCache_version_policy[of ?st "''/p/a.ts''" "''let x = 1''" "''/p/b.ts''"] miss v ne
  have first: "fileCache ?st1 ''/p/a.ts'' = Some ''let x = 1''"
    "getScriptVersion ?st1 ''/p/a.ts'' = 2" "fileVersions ?st1 ''/p/b.ts'' = None"
    by simp_all
  from updateFileCache_version_policy[of ?st1 "''/p/a.ts''" "''let x = 1''" "''/p/b.ts''"] first(1)
  have "updateFileCache ''/p/a.ts'' ''let x = 1'' ?st1 = ?st1"
    by blast
  with miss first show ?thesis by simp
qed

section \<open>Properties of the fallback to the parent\<close>

lemma renderType_cases:
  assumes "getTypeAtLocation tc n = Some t"
  shows "renderType tc parent n =
     (if typeToString tc t n = anyMarker then
        (case parent n of
           None \<Rightarrow> (Some anyMarker, [GeneratedTypeString anyMarker])
         | Some p \<Rightarrow>
             (case getTypeAtLocation tc p of
                None \<Rightarrow> (Some anyMarker, [GeneratedTypeString anyMarker, GotAnyTryingParent])
              | Some pt \<Rightarrow>
                  if pt \<noteq> t then
                    (Some (if typeToString tc pt p \<noteq> anyMarker then typeToString tc pt p else anyMarker),
                     [GeneratedTypeString anyMarker, GotAnyTryingParent,
                      ParentTypeString (typeToString tc pt p)])
                  else (Some anyMarker, [GeneratedTypeString anyMarker, GotAnyTryingParent])))
      else (Some (typeToString tc t n), [GeneratedTypeString (typeToString tc t n)]))"
  using assms by (simp add: renderType_def Let_def split: option.splits)

text \<open>
  Claim C4. For a node whose type the checker yields: the parent is queried exactly
  when the node's rendered type is the marker \<^verbatim>\<open>any\<close> and the node has a parent.
  Otherwise the node's own string is returned. When the parent is queried, its string is
  returned exactly when the parent has a type, that type is another type object than
  the node's, and its string is not the marker; in every other case the node's string
  is returned unchanged. A returned string other than the node's own is therefore the
  parent's, differs from the node's and is not the marker. Where the node's type renders
  as the marker at the parent too, as the type \<^verbatim>\<open>any\<close> does everywhere, the parent's
  string is returned exactly when it differs from the node's string and is not the
  marker. Only \<^verbatim>\<open>node.parent\<close> is consulted: the parents of other nodes have no
  influence on the result.
\<close>

theorem renderType_fallback:
  assumes "getTypeAtLocation tc n = Some t"
  shows "(GotAnyTryingParent \<in> set (snd (renderType tc parent n))
            \<longleftrightarrow> typeToString tc t n = anyMarker \<and> parent n \<noteq> None)
    \<and> (typeToString tc t n \<noteq> anyMarker \<or> parent n = None
          \<longrightarrow> fst (renderType tc parent n) = Some (typeToString tc t n))
    \<and> (\<forall>p. typeToString tc t n = anyMarker \<and> parent n = Some p \<longrightarrow>
          (case getTypeAtLocation tc p of
             None \<Rightarrow> fst (renderType tc parent n) = Some (typeToString tc t n)
           | Some pt \<Rightarrow>
               fst (renderType tc parent n)
                 = Some (if pt \<noteq> t \<and> typeToString tc pt p \<noteq> anyMarker
                         then typeToString tc pt p else typeToString tc t n)))
    \<and> (fst (renderType tc parent n) \<noteq> Some (typeToString tc t n) \<longrightarrow>
          (\<exists>p pt. parent n = Some p \<and> getTypeAtLocation tc p = Some pt
             \<and> fst (renderType tc parent n) = Some (typeToString tc pt p)
             \<and> typeToString tc pt p \<noteq> typeToString tc t n \<and> typeToString tc pt p \<noteq> anyMarker))
    \<and> (\<forall>p. typeToString tc t n = anyMarker \<and> parent n = Some p
            \<and> typeToString tc t p = anyMarker \<longrightarrow>
          (case getTypeAtLocation tc p of
             None \<Rightarrow> fst (renderType tc parent n) = Some (typeToString tc t n)
           | Some pt \<Rightarrow>
               fst (renderType tc parent n)
                 = Some (if typeToString tc pt p \<noteq> typeToString tc t n
                            \<and> typeToString tc pt p \<noteq> anyMarker
                         then typeToString tc pt p else typeToString tc t n)))
    \<and> (\<forall>parent'. parent' n = parent n \<longrightarrow> renderType tc parent' n = renderType tc parent n)"
proof -
  note c = renderType_cases[OF assms]
  have a: "GotAnyTryingParent \<in> set (snd (renderType tc parent n))
            \<longleftrightarrow> typeToString tc t n = anyMarker \<and> parent n \<noteq> None"
    unfolding c by (simp split: option.splits)
  have b: "typeToString tc t n \<noteq> anyMarker \<or> parent n = None
          \<longrightarrow> fst (renderType tc parent n) = Some (typeToString tc t n)"
    unfolding c by (simp split: option.splits)
  have d: "\<forall>p. typeToString tc t n = anyMarker \<and> parent n = Some p \<longrightarrow>
          (case getTypeAtLocation tc p of
             None \<Rightarrow> fst (renderType tc parent n) = Some (typeToString tc t n)
           | Some pt \<Rightarrow>
               fst (renderType tc parent n)
                 = Some (if pt \<noteq> t \<and> typeToString tc pt p \<noteq> anyMarker
                         then typeToString tc pt p else typeToString tc t n))"
    unfolding c by (simp split: option.splits)
  have e: "fst (renderType tc parent n) \<noteq> Some (typeToString tc t n) \<longrightarrow>
          (\<exists>p pt. parent n = Some p \<and> getTypeAtLocation tc p = Some pt
             \<and> fst (renderType tc parent n) = Some (typeToString tc pt p)
             \<and> typeToString tc pt p \<noteq> typeToString tc t n \<and> typeToString tc pt p \<noteq> anyMarker)"
    unfolding c by (simp split: option.splits if_splits)
  have s: "\<forall>p. typeToString tc t n = anyMarker \<and> parent n = Some p
            \<and> typeToString tc t p = anyMarker \<longrightarrow>
          (case getTypeAtLocation tc p of
             None \<Rightarrow> fst (renderType tc parent n) = Some (typeToString tc t n)
           | Some pt \<Rightarrow>
               fst (renderType tc parent n)
                 = Some (if typeToString tc pt p \<noteq> typeToString tc t n
                            \<and> typeToString tc pt p \<noteq> anyMarker
                         then typeToString tc pt p else typeToString tc t n))"
    unfolding c by (auto split: option.splits)
  have f: "\<forall>parent'. parent' n = parent n \<longrightarrow> renderType tc parent' n = renderType tc parent n"
    by (simp add: renderType_cases[OF assms])
  show ?thesis
    by (intro conjI) (rule a, rule b, rule d, rule e, rule s, rule f)
qed

theorem renderType_fallback_witness:
  "getTypeAtLocation exampleChecker 0 = Some 0
   \<and> typeToString exampleChecker 0 0 = ''any''
   \<and> exampleParent 0 = Some 1
   \<and> getTypeAtLocation exampleChecker 1 = Some 1
   \<and> fst (renderType exampleChecker exampleParent 0) = Some ''(x: any) => any''
   \<and> GotAnyTryingParent \<in> set (snd (renderType exampleChecker exampleParent 0))
   \<and> renderType exampleChecker (\<lambda>n. if n = 0 then Some 1 else None) 0
       = renderType exampleChecker exampleParent 0"
proof -
  have t: "getTypeAtLocation exampleChecker 0 = Some 0" "typeToString exampleChecker 0 0 = anyMarker"
    "exampleParent 0 = Some 1" "getTypeAtLocation exampleChecker 1 = Some 1"
    "typeToString exampleChecker 1 1 = ''(x: any) => any''"
    by (simp_all add: exampleChecker_def exampleParent_def anyMarker_def)
  have ne: "(1::nat) \<noteq> 0" "''(x: any) => any'' \<noteq> anyMarker"
    by (simp_all add: anyMarker_def)
  note th = renderType_fallback[OF t(1), of exampleParent]
  from th[THEN conjunct1] t(2,3)
  have trig: "GotAnyTryingParent \<in> set (snd (renderType exampleChecker exampleParent 0))"
    by simp
  from th[THEN conjunct2, THEN conjunct2, THEN conjunct1, rule_format, of 1] t ne
  have res: "fst (renderType exampleChecker exampleParent 0) = Some ''(x: any) => any''"
    by simp
  from th[THEN conjunct2, THEN conjunct2, THEN conjunct2, THEN conjunct2, THEN conjunct2,
      rule_format,
      of "\<lambda>n. if n = 0 then Some 1 else None"] t(3)
  have one: "renderType exampleChecker (\<lambda>n. if n = 0 then Some 1 else None) 0
       = renderType exampleChecker exampleParent 0"
    by simp
  from t trig res one show ?thesis
    by (simp add: anyMarker_def)
qed

section \<open>Properties of the copy commands\<close>














section \<open>Properties of re-initialisation\<close>

lemma getScriptSnapshot_keeps:
  "fileCache st f = Some t \<Longrightarrow> t \<noteq> [] \<Longrightarrow>
     fileCache (snd (getScriptSnapshot d g st)) f = Some t
     \<and> fileVersions (snd (getScriptSnapshot d g st)) f = fileVersions st f"
  by (auto simp: getScriptSnapshot_def truthyContent_def split: option.splits DiskFile.splits)

lemma getScriptSnapshot_dom:
  "dom (fileCache st) \<subseteq> dom (fileCache (snd (getScriptSnapshot d g st)))
   \<and> dom (fileVersions st) \<subseteq> dom (fileVersions (snd (getScriptSnapshot d g st)))"
  by (auto simp: getScriptSnapshot_def truthyContent_def split: option.splits DiskFile.splits)

lemma getScriptSnapshot_handles:
  "serviceHost (snd (getScriptSnapshot d g st)) = serviceHost st
   \<and> languageService (snd (getScriptSnapshot d g st)) = languageService st"
  by (auto simp: getScriptSnapshot_def truthyContent_def split: option.splits DiskFile.splits)

lemma fold_getScriptSnapshot_keeps:
  "fileCache st f = Some t \<Longrightarrow> t \<noteq> [] \<Longrightarrow>
     fileCache (fold (\<lambda>g s. snd (getScriptSnapshot d g s)) gs st) f = Some t
     \<and> fileVersions (fold (\<lambda>g s. snd (getScriptSnapshot d g s)) gs st) f = fileVersions st f"
proof (induction gs arbitrary: st)
  case Nil
  then show ?case by simp
next
  case (Cons g gs)
  from getScriptSnapshot_keeps[OF Cons.prems, of d g]
  have k: "fileCache (snd (getScriptSnapshot d g st)) f = Some t"
    "fileVersions (snd (getScriptSnapshot d g st)) f = fileVersions st f" by simp_all
  from Cons.IH[OF k(1) Cons.prems(2)] k(2) show ?case by simp
qed

lemma fold_getScriptSnapshot_dom:
  "dom (fileCache st) \<subseteq> dom (fileCache (fold (\<lambda>g s. snd (getScriptSnapshot d g s)) gs st))
   \<and> dom (fileVersions st) \<subseteq> dom (fileVersions (fold (\<lambda>g s. snd (getScriptSnapshot d g s)) gs st))"
proof (induction gs arbitrary: st)
  case Nil
  then show ?case by simp
next
  case (Cons g gs)
  from Cons.IH[of "snd (getScriptSnapshot d g st)"] getScriptSnapshot_dom[of st d g]
  show ?case by (simp only: fold_Cons comp_apply) blast
qed

lemma fold_getScriptSnapshot_handles:
  "serviceHost (fold (\<lambda>g s. snd (getScriptSnapshot d g s)) gs st) = serviceHost st
   \<and> languageService (fold (\<lambda>g s. snd (getScriptSnapshot d g s)) gs st) = languageService st"
  by (induction gs arbitrary: st) (simp_all add: getScriptSnapshot_handles)

lemma initializeTypeScriptService_tables:
  "dom (fileCache st) \<subseteq> dom (fileCache (initializeTypeScriptService env r st))
   \<and> dom (fileVersions st) \<subseteq> dom (fileVersions (initializeTypeScriptService env r st))"
  using fold_getScriptSnapshot_dom[of "st\<lparr>serviceHost := Some h, languageService := Some l\<rparr>" for h l]
  by (simp add: initializeTypeScriptService_def Let_def)

lemma initializeTypeScriptService_keeps:
  "fileCache st f = Some t \<Longrightarrow> t \<noteq> [] \<Longrightarrow>
     fileCache (initializeTypeScriptService env r st) f = Some t
     \<and> fileVersions (initializeTypeScriptService env r st) f = fileVersions st f"
  using fold_getScriptSnapshot_keeps[of "st\<lparr>serviceHost := Some h, languageService := Some l\<rparr>" f t for h l]
  by (simp add: initializeTypeScriptService_def Let_def)

lemma initializeTypeScriptService_handles:
  "serviceHost (initializeTypeScriptService env r st)
     = Some \<lparr>getScriptFileNames = getAllTsFiles (readdirSync env) r, getCurrentDirectory = r,
             getCompilationSettings =
               (case findTsConfig env r of
                  None \<Rightarrow> None
                | Some p \<Rightarrow> if readsWithoutError env p then Some p else None)\<rparr>
   \<and> languageService (initializeTypeScriptService env r st)
     = map_option (createLanguageService env) (serviceHost (initializeTypeScriptService env r st))
   \<and> program (initializeTypeScriptService env r st)
     = Option.bind (languageService (initializeTypeScriptService env r st)) (getProgram env)
   \<and> typeChecker (initializeTypeScriptService env r st)
     = Option.bind (program (initializeTypeScriptService env r st)) (getTypeChecker env)"
  by (simp add: initializeTypeScriptService_def Let_def fold_getScriptSnapshot_handles
      split: option.splits)

lemma ensureService_root: "currentWorkspaceRoot (ensureService env r st) = Some r"
  by (simp add: ensureService_def)

lemma updateFileCache_root:
  "currentWorkspaceRoot (updateFileCache f c st) = currentWorkspaceRoot st"
  by (simp add: updateFileCache_def)

lemma updateFileCache_cached: "fileCache (updateFileCache f c st) f = Some c"
  by (simp add: updateFileCache_def)

text \<open>
  The engine's own request for a snapshot treats an empty cached text as missing: the
  file is read again and its version is set back to 1.
\<close>

lemma getScriptSnapshot_resets_empty_text:
  "fileCache st f = Some [] \<Longrightarrow> d f = Readable t \<Longrightarrow>
     getScriptSnapshot d f st
       = (Some t, st\<lparr>fileCache := (fileCache st)(f \<mapsto> t),
                        fileVersions := (fileVersions st)(f \<mapsto> 1)\<rparr>)"
  by (simp add: getScriptSnapshot_def truthyContent_def)

text \<open>
  Claim C1, as the code has it. When the requested root differs from the active one,
  the service host, the language service, the program handle and the type checker are
  replaced by ones built for the new root, and the new root becomes the active one. The
  file-text cache and the version table are not cleared: every path cached before is
  still cached afterwards, and a path cached with a non-empty text keeps its text and
  its version. Only \<^verbatim>\<open>deactivate\<close> empties the two maps.
\<close>

theorem ensureService_rebuilds_handles_keeps_cache:
  assumes "currentWorkspaceRoot st \<noteq> Some rootPath"
  shows "getCurrentDirectory (the (serviceHost (ensureService env rootPath st))) = rootPath
    \<and> getScriptFileNames (the (serviceHost (ensureService env rootPath st)))
        = getAllTsFiles (readdirSync env) rootPath
    \<and> serviceHost (ensureService env rootPath st) \<noteq> None
    \<and> languageService (ensureService env rootPath st)
        = map_option (createLanguageService env) (serviceHost (ensureService env rootPath st))
    \<and> program (ensureService env rootPath st)
        = Option.bind (languageService (ensureService env rootPath st)) (getProgram env)
    \<and> typeChecker (ensureService env rootPath st)
        = Option.bind (program (ensureService env rootPath st)) (getTypeChecker env)
    \<and> currentWorkspaceRoot (ensureService env rootPath st) = Some rootPath
    \<and> isServiceInitialized (ensureService env rootPath st)
    \<and> dom (fileCache st) \<subseteq> dom (fileCache (ensureService env rootPath st))
    \<and> dom (fileVersions st) \<subseteq> dom (fileVersions (ensureService env rootPath st))
    \<and> (\<forall>f t. fileCache st f = Some t \<and> t \<noteq> [] \<longrightarrow>
          fileCache (ensureService env rootPath st) f = Some t
          \<and> fileVersions (ensureService env rootPath st) f = fileVersions st f)
    \<and> fileCache (deactivate st) = Map.empty \<and> fileVersions (deactivate st) = Map.empty"
proof -
  let ?i = "initializeTypeScriptService env rootPath st"
  from assms have e: "ensureService env rootPath st
      = ?i\<lparr>currentWorkspaceRoot := Some rootPath, isServiceInitialized := True\<rparr>"
    by (simp add: ensureService_def)
  note h = initializeTypeScriptService_handles[of env rootPath st]
  note t = initializeTypeScriptService_tables[of st env rootPath]
  have k: "\<forall>f t. fileCache st f = Some t \<and> t \<noteq> [] \<longrightarrow>
          fileCache ?i f = Some t \<and> fileVersions ?i f = fileVersions st f"
    using initializeTypeScriptService_keeps[of st _ _ env rootPath] by blast
  have d: "fileCache (deactivate st) = Map.empty \<and> fileVersions (deactivate st) = Map.empty"
    by (simp add: deactivate_def emptyState_def)
  from h t d show ?thesis unfolding e using k by auto
qed

theorem ensureService_rebuilds_handles_keeps_cache_witness:
  "currentWorkspaceRoot
      (updateFileCache ''/a/x.ts'' ''let x = 1;'' (ensureService twoRoots ''/a'' emptyState))
     \<noteq> Some ''/b''
   \<and> fileCache
        (updateFileCache ''/a/x.ts'' ''let x = 1;'' (ensureService twoRoots ''/a'' emptyState))
        ''/a/x.ts'' = Some ''let x = 1;''
   \<and> fileCache
        (ensureService twoRoots ''/b''
          (updateFileCache ''/a/x.ts'' ''let x = 1;'' (ensureService twoRoots ''/a'' emptyState)))
        ''/a/x.ts'' = Some ''let x = 1;''
   \<and> currentWorkspaceRoot
        (ensureService twoRoots ''/b''
          (updateFileCache ''/a/x.ts'' ''let x = 1;'' (ensureService twoRoots ''/a'' emptyState)))
       = Some ''/b''"
proof -
  let ?st = "updateFileCache ''/a/x.ts'' ''let x = 1;'' (ensureService twoRoots ''/a'' emptyState)"
  have r: "currentWorkspaceRoot ?st \<noteq> Some ''/b''"
    by (simp add: updateFileCache_root ensureService_root)
  have c: "fileCache ?st ''/a/x.ts'' = Some ''let x = 1;''"
    by (rule updateFileCache_cached)
  have ne: "''let x = 1;'' \<noteq> []"
    by simp
  from ensureService_rebuilds_handles_keeps_cache[OF r, of twoRoots] c ne r show ?thesis
    by blast
qed

text \<open>
  Claim C1 as stated fails: after a query in workspace \<^verbatim>\<open>/a\<close> has cached
  \<^verbatim>\<open>/a/x.ts\<close>, a query in workspace \<^verbatim>\<open>/b\<close> re-initialises the service, and the
  entry of \<^verbatim>\<open>/a/x.ts\<close> is still in the file-text cache and in the version table.
\<close>

theorem ensureService_keeps_previous_root_entries:
  "fileCache
     (ensureService twoRoots ''/b''
       (updateFileCache ''/a/x.ts'' ''let x = 1;'' (ensureService twoRoots ''/a'' emptyState)))
     ''/a/x.ts'' = Some ''let x = 1;''
   \<and> fileVersions
     (ensureService twoRoots ''/b''
       (updateFileCache ''/a/x.ts'' ''let x = 1;'' (ensureService twoRoots ''/a'' emptyState)))
     ''/a/x.ts'' = Some 2
   \<and> currentWorkspaceRoot
     (ensureService twoRoots ''/b''
       (updateFileCache ''/a/x.ts'' ''let x = 1;'' (ensureService twoRoots ''/a'' emptyState)))
     = Some ''/b''"
proof -
  let ?first = "ensureService twoRoots ''/a'' (emptyState :: (ServiceHost, ServiceHost, ServiceHost) State)"
  let ?st = "updateFileCache ''/a/x.ts'' ''let x = 1;'' ?first"
  have fa: "getAllTsFiles (readdirSync twoRoots) ''/a'' = [''/a/x.ts'']"
    by (simp add: getAllTsFiles_def searchFiles.simps searchEntries.simps(2) twoRoots_def
        initialWalk_def maxDepth_def maxFiles_def path_join_def extname_def)
  have sel: "diskState twoRoots ''/a/x.ts'' = Readable ''let x = 1''"
    "snapshotRequests twoRoots = getScriptFileNames"
    by (simp_all add: twoRoots_def)
  have v0: "fileCache ?first ''/a/x.ts'' = Some ''let x = 1''"
    "fileVersions ?first ''/a/x.ts'' = Some 1"
    by (simp_all add: ensureService_def initializeTypeScriptService_def Let_def fa sel emptyState_def
        getScriptSnapshot_def truthyContent_def)
  then have v: "fileCache ?st ''/a/x.ts'' = Some ''let x = 1;''"
    "fileVersions ?st ''/a/x.ts'' = Some 2"
    by (simp_all add: updateFileCache_def getScriptVersion_def)
  have r: "currentWorkspaceRoot ?st \<noteq> Some ''/b''"
    by (simp add: updateFileCache_root ensureService_root)
  have i: "\<not> isServiceInitialized ?st \<or> currentWorkspaceRoot ?st \<noteq> Some ''/b''"
    using r by simp
  have k: "fileCache (initializeTypeScriptService twoRoots ''/b'' ?st) ''/a/x.ts'' = Some ''let x = 1;''
     \<and> fileVersions (initializeTypeScriptService twoRoots ''/b'' ?st) ''/a/x.ts''
         = fileVersions ?st ''/a/x.ts''"
    by (rule initializeTypeScriptService_keeps[OF v(1)]) simp
  have e: "ensureService twoRoots ''/b'' ?st
      = (initializeTypeScriptService twoRoots ''/b'' ?st)
          \<lparr>currentWorkspaceRoot := Some ''/b'', isServiceInitialized := True\<rparr>"
    using i unfolding ensureService_def[of twoRoots "''/b''" ?st] by (rule if_P)
  from k v(2) show ?thesis unfolding e by simp
qed

section \<open>Properties of the file-text cache of the simpler variant\<close>

lemma getScriptSnapshot_simple_keeps:
  "cache f = Some t \<Longrightarrow> t \<noteq> [] \<Longrightarrow>
     snd (getScriptSnapshot_simple d g cache) f = Some t
     \<and> (g = f \<longrightarrow> fst (getScriptSnapshot_simple d g cache) = Snapshot t
                   \<or> fst (getScriptSnapshot_simple d g cache) = Undefined)"
  by (auto simp: getScriptSnapshot_simple_def truthyContent_def split: option.splits DiskFile.splits)

lemma runSession_keeps:
  "cache f = Some t \<Longrightarrow> t \<noteq> [] \<Longrightarrow> list_all (leavesAlone f) events \<Longrightarrow>
     snd (runSession events cache) f = Some t
     \<and> (\<forall>r. (f, r) \<in> set (fst (runSession events cache)) \<longrightarrow> r = Snapshot t \<or> r = Undefined)"
proof (induction events cache rule: runSession.induct)
  case (1 cache)
  then show ?case by simp
next
  case (2 d fileName events cache)
  obtain served cache1 where s: "getScriptSnapshot_simple d fileName cache = (served, cache1)"
    by (cases "getScriptSnapshot_simple d fileName cache")
  from getScriptSnapshot_simple_keeps[of cache f t d fileName] "2.prems"(1,2) s
  have k: "cache1 f = Some t" "fileName = f \<longrightarrow> served = Snapshot t \<or> served = Undefined"
    by auto
  from "2.prems"(3) have "list_all (leavesAlone f) events" by simp
  from "2.IH"[OF s[symmetric] refl k(1) "2.prems"(2) this] k(2) s show ?case
    by (auto split: prod.splits)
next
  case (3 fileName content events cache)
  from "3.prems"(3) have ne: "fileName \<noteq> f" and rest: "list_all (leavesAlone f) events"
    by simp_all
  from ne "3.prems"(1) have "(cache(fileName \<mapsto> content)) f = Some t" by simp
  from "3.IH"[OF this "3.prems"(2) rest] show ?case
    unfolding runSession.simps(3) .
qed

text \<open>
  What does hold of the cache of the simpler variant: the host reports the version
  \<^verbatim>\<open>'1'\<close> for every file, and a file cached with a non-empty text, through any
  session in which it is never the active document, keeps that text whatever happens
  on disk; every snapshot served for it is that text, or undefined when the file no
  longer exists.
\<close>

lemma simple_cache_keeps_nonempty_text:
  assumes "cache f = Some t" and "t \<noteq> []" and "list_all (leavesAlone f) events"
  shows "getScriptVersion_simple g = ''1''
    \<and> snd (runSession events cache) f = Some t
    \<and> (\<forall>r. (f, r) \<in> set (fst (runSession events cache)) \<longrightarrow> r = Snapshot t \<or> r = Undefined)"
  using runSession_keeps[of cache f t events] assms by (simp add: getScriptVersion_simple_def)

lemma simple_cache_keeps_nonempty_text_example:
  "fst (runSession
          [RequestSnapshot (\<lambda>fileName. Readable ''let b = 2'') ''/p/b.ts'',
           StoreActiveDocument ''/p/a.ts'' ''let a = 1'',
           RequestSnapshot (\<lambda>fileName. Absent) ''/p/b.ts'']
          [''/p/b.ts'' \<mapsto> ''let b = 1''])
     = [(''/p/b.ts'', Snapshot ''let b = 1''), (''/p/b.ts'', Undefined)]
   \<and> snd (runSession
          [RequestSnapshot (\<lambda>fileName. Readable ''let b = 2'') ''/p/b.ts'',
           StoreActiveDocument ''/p/a.ts'' ''let a = 1'',
           RequestSnapshot (\<lambda>fileName. Absent) ''/p/b.ts'']
          [''/p/b.ts'' \<mapsto> ''let b = 1'']) ''/p/b.ts'' = Some ''let b = 1''
   \<and> getScriptVersion_simple ''/p/b.ts'' = ''1''"
proof -
  let ?events = "[RequestSnapshot (\<lambda>fileName. Readable ''let b = 2'') ''/p/b.ts'',
           StoreActiveDocument ''/p/a.ts'' ''let a = 1'',
           RequestSnapshot (\<lambda>fileName. Absent) ''/p/b.ts'']"
  let ?cache = "[''/p/b.ts'' \<mapsto> ''let b = 1'']"
  have a: "?cache ''/p/b.ts'' = Some ''let b = 1''" "''let b = 1'' \<noteq> []"
    "list_all (leavesAlone ''/p/b.ts'') ?events"
    by simp_all
  have s: "fst (runSession ?events ?cache)
     = [(''/p/b.ts'', Snapshot ''let b = 1''), (''/p/b.ts'', Undefined)]"
    by (simp add: getScriptSnapshot_simple_def truthyContent_def)
  from simple_cache_keeps_nonempty_text[of ?cache "''/p/b.ts''" "''let b = 1''" ?events "''/p/b.ts''"] a s
  show ?thesis by simp
qed

text \<open>
  Claim C10, the code at the failing input. A file other than the active document is
  empty when it is first read, and its empty text is cached. The file then changes on
  disk. At the next request the test \<^verbatim>\<open>if (!content)\<close> takes the cached empty string
  for a missing entry: the file is read again, and the new text is served and replaces
  the cached one.
\<close>

theorem simple_cache_rereads_empty_file:
  "runSession
     [RequestSnapshot (\<lambda>fileName. Readable []) ''/p/b.ts'',
      RequestSnapshot (\<lambda>fileName. Readable ''export const x = 1'') ''/p/b.ts'']
     Map.empty
   = ([(''/p/b.ts'', Snapshot []), (''/p/b.ts'', Snapshot ''export const x = 1'')],
      [''/p/b.ts'' \<mapsto> ''export const x = 1''])
   \<and> snd (runSession [RequestSnapshot (\<lambda>fileName. Readable []) ''/p/b.ts''] Map.empty) ''/p/b.ts''
       = Some []"
  by (simp add: getScriptSnapshot_simple_def truthyContent_def)

end
